theory Spec2Isabelle
  imports Main "HOL-Library.Word"
begin

section \<open>JavaScript arithmetic used by the engine\<close>

text \<open>
  Numbers of the source are JavaScript doubles. Every number the engine handles is an
  integer far below \<open>2^53\<close> (coordinates, the turn counter, 32-bit draws), where double
  arithmetic is exact, so they are modelled as \<open>int\<close>.

  \<open>a % b\<close> of JavaScript truncates: the result has the sign of the dividend. A zero
  divisor (which would give \<open>NaN\<close>) occurs at no call site below: the divisors are \<open>97\<close>,
  a loop counter starting at \<open>2\<close>, and \<open>max\<close> behind the guard \<open>draw < limit\<close>.
\<close>

definition js_rem :: "int \<Rightarrow> int \<Rightarrow> int" where
  "js_rem a b = sgn a * (\<bar>a\<bar> mod \<bar>b\<bar>)"

section \<open>Secure random (both variants, \<open>secureRandomInt\<close>)\<close>

text \<open>
  \<open>const maxUint32 = 0xFFFFFFFF; const limit = Math.floor(maxUint32 / max) * max;\<close>
  For \<open>max = 0\<close> the source computes \<open>Infinity * 0 = NaN\<close> and \<open>draw < NaN\<close> is false
  for every draw; here \<open>limit 0 = 0\<close> and \<open>draw < 0\<close> is false for every draw as well.
\<close>

definition maxUint32 :: int where
  "maxUint32 = 0xFFFFFFFF"

definition limit :: "int \<Rightarrow> int" where
  "limit mx = (maxUint32 div mx) * mx"

text \<open>
  The entropy source \<open>crypto.getRandomValues\<close> is external: the values it will deliver
  are a parameter, a list of 32-bit draws. Each iteration of \<open>while (true)\<close> consumes
  one draw. \<open>None\<close>: every draw supplied was rejected, the loop has not returned.
  On return the unused draws are handed back. The parameter \<open>max\<close> of the source is
  written \<open>mx\<close>.
\<close>

fun secureRandomInt :: "int \<Rightarrow> 32 word list \<Rightarrow> (int \<times> 32 word list) option" where
  "secureRandomInt mx [] = None"
| "secureRandomInt mx (d # ds) =
     (if uint d < limit mx then Some (js_rem (uint d) mx, ds)
      else secureRandomInt mx ds)"

section \<open>Coordinates\<close>

record coord =
  cx :: int
  cy :: int
  cz :: int
  cw :: int

datatype axis = X | Y | Z | W

fun get_axis :: "coord \<Rightarrow> axis \<Rightarrow> int" where
  "get_axis c X = cx c"
| "get_axis c Y = cy c"
| "get_axis c Z = cz c"
| "get_axis c W = cw c"

text \<open>\<open>next[axis] += d\<close>\<close>

fun add_axis :: "coord \<Rightarrow> axis \<times> int \<Rightarrow> coord" where
  "add_axis c (X, d) = c\<lparr>cx := cx c + d\<rparr>"
| "add_axis c (Y, d) = c\<lparr>cy := cy c + d\<rparr>"
| "add_axis c (Z, d) = c\<lparr>cz := cz c + d\<rparr>"
| "add_axis c (W, d) = c\<lparr>cw := cw c + d\<rparr>"

subsection \<open>The canonical key: the template string \<open>`${c.x},${c.y},${c.z},${c.w}`\<close>\<close>

definition digit_char :: "nat \<Rightarrow> char" where
  "digit_char n = ''0123456789'' ! n"

fun show_nat :: "nat \<Rightarrow> string" where
  "show_nat n = (if n < 10 then [digit_char n] else show_nat (n div 10) @ [digit_char (n mod 10)])"

declare show_nat.simps [simp del]

definition show_int :: "int \<Rightarrow> string" where
  "show_int i = (if i < 0 then CHR ''-'' # show_nat (nat (- i)) else show_nat (nat i))"

definition key :: "coord \<Rightarrow> string" where
  "key c = show_int (cx c) @ '','' @ show_int (cy c) @ '','' @ show_int (cz c) @ '','' @ show_int (cw c)"

section \<open>Primality by trial division (both variants, \<open>isPrime\<close>)\<close>

text \<open>
  \<open>for (let i = 2; i <= Math.sqrt(n); i++) if (n % i === 0) return false;\<close>
  For integers \<open>i \<ge> 2\<close> and \<open>n \<ge> 2\<close> in the exact range, \<open>i <= Math.sqrt(n)\<close> holds
  exactly when \<open>i * i \<le> n\<close>.
\<close>

function isPrime_loop :: "int \<Rightarrow> int \<Rightarrow> bool" where
  "isPrime_loop n i =
     (if i * i \<le> n then (if js_rem n i = 0 then False else isPrime_loop n (i + 1))
      else True)"
  by pat_completeness auto
termination
proof (relation "measure (\<lambda>(n, i). nat (n + 1 - i))")
  show "wf (measure (\<lambda>(n, i). nat (n + 1 - i)))" by simp
next
  fix n i :: int
  assume le: "i * i \<le> n"
  have "i \<le> i * i"
  proof (cases "i \<le> 0")
    case True
    have "0 \<le> i * i" by simp
    with True show ?thesis by linarith
  next
    case False
    then have "1 \<le> i" by simp
    then have "i * 1 \<le> i * i" by (intro mult_left_mono) simp_all
    then show ?thesis by simp
  qed
  with le have "i \<le> n" by linarith
  then show "((n, i + 1), (n, i)) \<in> measure (\<lambda>(n, i). nat (n + 1 - i))" by simp
qed

declare isPrime_loop.simps [simp del]

definition isPrime :: "int \<Rightarrow> bool" where
  "isPrime n = (if n < 2 then False else isPrime_loop n 2)"

section \<open>The extended engine (\<open>hc-2.js\<close>)\<close>

subsection \<open>State\<close>

record memory =
  mem_trap :: bool
  mem_turn :: int

text \<open>
  \<open>visited\<close> is a JavaScript \<open>Map\<close> from key strings to memory records: an association
  list in insertion order with one entry per key. \<open>Map.prototype.set\<close> replaces the
  value of a key already present, in place, and appends a new key at the end.
\<close>

fun map_set :: "(string \<times> 'v) list \<Rightarrow> string \<Rightarrow> 'v \<Rightarrow> (string \<times> 'v) list" where
  "map_set [] k v = [(k, v)]"
| "map_set ((k', v') # m) k v =
     (if k' = k then (k, v) # m else (k', v') # map_set m k v)"

definition map_get :: "(string \<times> 'v) list \<Rightarrow> string \<Rightarrow> 'v option" where
  "map_get m k = map_of m k"

definition map_has :: "(string \<times> 'v) list \<Rightarrow> string \<Rightarrow> bool" where
  "map_has m k = (map_of m k \<noteq> None)"

record hypercube =
  size_of :: int
  turn :: int
  exit_of :: coord
  position :: coord
  visited :: "(string \<times> memory) list"

subsection \<open>Construction\<close>

definition getCenter :: "int \<Rightarrow> coord" where
  "getCenter n = (let mid = n div 2 in \<lparr>cx = mid, cy = mid, cz = mid, cw = mid\<rparr>)"

definition randomStart :: "int \<Rightarrow> 32 word list \<Rightarrow> (coord \<times> 32 word list) option" where
  "randomStart n ds =
     (case secureRandomInt n ds of None \<Rightarrow> None | Some (x, ds1) \<Rightarrow>
     (case secureRandomInt n ds1 of None \<Rightarrow> None | Some (y, ds2) \<Rightarrow>
     (case secureRandomInt n ds2 of None \<Rightarrow> None | Some (z, ds3) \<Rightarrow>
     (case secureRandomInt n ds3 of None \<Rightarrow> None | Some (w, ds4) \<Rightarrow>
        Some (\<lparr>cx = x, cy = y, cz = z, cw = w\<rparr>, ds4)))))"

definition construct :: "int \<Rightarrow> 32 word list \<Rightarrow> (hypercube \<times> 32 word list) option" where
  "construct n ds =
     (case randomStart n ds of None \<Rightarrow> None
      | Some (p, ds') \<Rightarrow>
          Some (\<lparr>size_of = n, turn = 0, exit_of = getCenter n, position = p, visited = []\<rparr>, ds'))"

subsection \<open>Predicates\<close>

definition isInside :: "hypercube \<Rightarrow> coord \<Rightarrow> bool" where
  "isInside s c = list_all (\<lambda>a. get_axis c a \<ge> 0 \<and> get_axis c a < size_of s) [X, Y, Z, W]"

definition isTrap :: "hypercube \<Rightarrow> coord \<Rightarrow> bool" where
  "isTrap s c =
     (let val = cx c * 7 + cy c * 11 + cz c * 13 + cw c * 17 + turn s * 19
      in isPrime (js_rem val 97))"

definition isExit :: "hypercube \<Rightarrow> coord \<Rightarrow> bool" where
  "isExit s c =
     (cx c = cx (exit_of s) \<and> cy c = cy (exit_of s) \<and> cz c = cz (exit_of s) \<and> cw c = cw (exit_of s))"

subsection \<open>The direction table and its lookup\<close>

text \<open>
  \<open>deltas\<close> is an object literal with eight own properties. \<open>deltas[dir]\<close> is an
  ordinary property read: a name that is not an own property is looked up on
  \<open>Object.prototype\<close>, whose members (functions, and the prototype object itself
  under \<open>__proto__\<close>) are truthy and have no enumerable property. The lookup returns
  the enumerable properties of the value found, or \<open>None\<close> for \<open>undefined\<close>.
\<close>

definition own_deltas :: "(string \<times> (axis \<times> int) list) list" where
  "own_deltas =
     [(''xp'', [(X, 1)]), (''xn'', [(X, -1)]),
      (''yp'', [(Y, 1)]), (''yn'', [(Y, -1)]),
      (''zp'', [(Z, 1)]), (''zn'', [(Z, -1)]),
      (''wp'', [(W, 1)]), (''wn'', [(W, -1)])]"

definition object_prototype_names :: "string list" where
  "object_prototype_names =
     [''constructor'', ''__defineGetter__'', ''__defineSetter__'', ''hasOwnProperty'',
      ''__lookupGetter__'', ''__lookupSetter__'', ''isPrototypeOf'', ''propertyIsEnumerable'',
      ''toString'', ''valueOf'', ''__proto__'', ''toLocaleString'']"

definition deltas :: "string \<Rightarrow> (axis \<times> int) list option" where
  "deltas dir =
     (case map_of own_deltas dir of
        Some d \<Rightarrow> Some d
      | None \<Rightarrow> if dir \<in> set object_prototype_names then Some [] else None)"

subsection \<open>\<open>move\<close>\<close>

record move_result =
  res_position :: coord
  res_trap :: bool
  res_exit :: bool
  res_turn :: int

text \<open>
  The result is \<open>Inl\<close> the error message of \<open>{ error: ... }\<close>, or \<open>Inr\<close> the success
  object; the second component is the engine after the call.
\<close>

definition move :: "hypercube \<Rightarrow> string \<Rightarrow> (string + move_result) \<times> hypercube" where
  "move s dir =
     (case deltas dir of
        None \<Rightarrow> (Inl ''Invalid direction.'', s)
      | Some d \<Rightarrow>
          let next = foldl add_axis (position s) d in
          if \<not> isInside s next then (Inl ''You hit the boundary wall.'', s)
          else
            let s1 = s\<lparr>turn := turn s + 1\<rparr>;
                s2 = s1\<lparr>position := next\<rparr>;
                trap = isTrap s2 next;
                s3 = s2\<lparr>visited := map_set (visited s2) (key next)
                                     \<lparr>mem_trap = trap, mem_turn = turn s2\<rparr>\<rparr>
            in (Inr \<lparr>res_position = position s3, res_trap = trap,
                     res_exit = isExit s3 next, res_turn = turn s3\<rparr>, s3))"

text \<open>A sequence of \<open>move\<close> calls, as the command loop issues them; results are dropped.\<close>

fun play :: "hypercube \<Rightarrow> string list \<Rightarrow> hypercube" where
  "play s [] = s"
| "play s (dir # dirs) = play (snd (move s dir)) dirs"

subsection \<open>\<open>renderSlice\<close>\<close>

text \<open>
  The method only reads the engine (\<open>position\<close>, \<open>size\<close>, \<open>exit\<close>, \<open>visited.has\<close>,
  \<open>visited.get\<close>) and writes to the console; it assigns to no field. Its model is a
  function from the engine to the lines printed, one per \<open>console.log\<close> call. The title
  line (which carries an emoji and the W level) and the layer headings are constructors;
  literal lines are \<open>Text\<close> (a newline at the end of a literal is left out), the
  assembled rows are \<open>Row\<close>. Each of the three counting loops
  \<open>for (let i = 0; i < this.size; i++)\<close> runs over \<open>0, ..., size - 1\<close>.
\<close>

datatype line = Title int | Layer int | Row string | Text string

text \<open>The body of the innermost loop: what is appended to \<open>row\<close> for column \<open>x\<close>.\<close>

definition cell :: "hypercube \<Rightarrow> int \<Rightarrow> int \<Rightarrow> int \<Rightarrow> string" where
  "cell s y z x =
     (let wLevel = cw (position s);
          coord = \<lparr>cx = x, cy = y, cz = z, cw = wLevel\<rparr>;
          k = key coord
      in if cx (position s) = x \<and> cy (position s) = y \<and> cz (position s) = z \<and>
            cw (position s) = wLevel then '' P ''
         else if isExit s coord then '' E ''
         else if map_has (visited s) k then
           (case map_get (visited s) k of
              Some m \<Rightarrow> if mem_trap m then '' X '' else '' . ''
            | None \<Rightarrow> '' ? '')
         else '' ? '')"

definition legend :: "line list" where
  "legend =
     [Text ''Legend:'', Text '' P = You'', Text '' E = Exit (center)'',
      Text '' X = Known trap (when discovered)'', Text '' . = Known safe'',
      Text '' ? = Unvisited (unknown)'']"

definition renderSlice :: "hypercube \<Rightarrow> line list" where
  "renderSlice s =
     [Title (cw (position s)),
      Text ''Z increases downward. X increases right. Y layers separated.''] @
     concat (map (\<lambda>y. Layer y #
                        map (\<lambda>z. Row (concat (map (cell s y z) [0..size_of s - 1])))
                          [0..size_of s - 1] @
                        [Text []])
               [0..size_of s - 1]) @
     legend"

section \<open>The minimal engine (\<open>unnamed/part_000\<close>)\<close>

text \<open>
  \<open>secureRandomInt\<close>, \<open>getCenter\<close>, \<open>randomStart\<close>, \<open>isPrime\<close>, the key and the
  direction table are the same text as in the extended engine and are shared.
  \<open>visited\<close> is a JavaScript \<open>Set\<close> of key strings, in insertion order.
\<close>

definition set_add :: "string list \<Rightarrow> string \<Rightarrow> string list" where
  "set_add ks k = (if k \<in> set ks then ks else ks @ [k])"

record hypercube_min =
  size_min :: int
  visited_min :: "string list"
  exit_min :: coord
  position_min :: coord

definition construct_min :: "int \<Rightarrow> 32 word list \<Rightarrow> (hypercube_min \<times> 32 word list) option" where
  "construct_min n ds =
     (case randomStart n ds of None \<Rightarrow> None
      | Some (p, ds') \<Rightarrow>
          Some (\<lparr>size_min = n, visited_min = [], exit_min = getCenter n, position_min = p\<rparr>, ds'))"

definition isInside_min :: "hypercube_min \<Rightarrow> coord \<Rightarrow> bool" where
  "isInside_min s c = list_all (\<lambda>a. get_axis c a \<ge> 0 \<and> get_axis c a < size_min s) [X, Y, Z, W]"

definition isTrap_min :: "coord \<Rightarrow> bool" where
  "isTrap_min c = (let sum = cx c + cy c + cz c + cw c in isPrime sum)"

definition isExit_min :: "hypercube_min \<Rightarrow> coord \<Rightarrow> bool" where
  "isExit_min s c =
     (cx c = cx (exit_min s) \<and> cy c = cy (exit_min s) \<and> cz c = cz (exit_min s) \<and> cw c = cw (exit_min s))"

record move_result_min =
  rmin_position :: coord
  rmin_trap :: bool
  rmin_exit :: bool

definition move_min :: "hypercube_min \<Rightarrow> string \<Rightarrow> (string + move_result_min) \<times> hypercube_min" where
  "move_min s dir =
     (case deltas dir of
        None \<Rightarrow> (Inl ''Invalid direction.'', s)
      | Some d \<Rightarrow>
          let newPos = foldl add_axis (position_min s) d in
          if \<not> isInside_min s newPos then (Inl ''You hit a wall of the hypercube.'', s)
          else
            let s1 = s\<lparr>position_min := newPos\<rparr>;
                s2 = s1\<lparr>visited_min := set_add (visited_min s1) (key newPos)\<rparr>
            in (Inr \<lparr>rmin_position = position_min s2, rmin_trap = isTrap_min newPos,
                     rmin_exit = isExit_min s2 newPos\<rparr>, s2))"

fun play_min :: "hypercube_min \<Rightarrow> string list \<Rightarrow> hypercube_min" where
  "play_min s [] = s"
| "play_min s (dir # dirs) = play_min (snd (move_min s dir)) dirs"

section \<open>Specification-side notions\<close>

text \<open>Primality as the specification means it: at least two and without a proper divisor.\<close>

definition is_prime_spec :: "int \<Rightarrow> bool" where
  "is_prime_spec n = (2 \<le> n \<and> (\<forall>d \<in> {2..<n}. \<not> d dvd n))"

text \<open>
  The classification of a slice cell in the specification's words, by priority: the
  player's coordinate, the fixed centre, a coordinate present in visited memory (trap or
  safe by its recorded flag), unknown.
\<close>

datatype marker = Player | Exit | KnownTrap | KnownSafe | Unknown

definition classify :: "hypercube \<Rightarrow> coord \<Rightarrow> marker" where
  "classify s c =
     (if c = position s then Player
      else if c = getCenter (size_of s) then Exit
      else case map_of (visited s) (key c) of
             Some m \<Rightarrow> if mem_trap m then KnownTrap else KnownSafe
           | None \<Rightarrow> Unknown)"

fun marker_text :: "marker \<Rightarrow> string" where
  "marker_text Player = '' P ''"
| "marker_text Exit = '' E ''"
| "marker_text KnownTrap = '' X ''"
| "marker_text KnownSafe = '' . ''"
| "marker_text Unknown = '' ? ''"

section \<open>Concrete engines used in the examples\<close>

text \<open>
  The extended engine of the shipped game (\<open>new Hypercube(4)\<close>) when the four start
  draws are \<open>1, 1, 1, 1\<close>, and when they are \<open>3, 2, 2, 1\<close>; the minimal engine
  (\<open>new Hypercube(5)\<close>) when they are \<open>1, 1, 1, 1\<close>.
\<close>

definition start_1111 :: hypercube where
  "start_1111 =
     \<lparr>size_of = 4, turn = 0, exit_of = \<lparr>cx = 2, cy = 2, cz = 2, cw = 2\<rparr>,
      position = \<lparr>cx = 1, cy = 1, cz = 1, cw = 1\<rparr>, visited = []\<rparr>"

definition start_3221 :: hypercube where
  "start_3221 =
     \<lparr>size_of = 4, turn = 0, exit_of = \<lparr>cx = 2, cy = 2, cz = 2, cw = 2\<rparr>,
      position = \<lparr>cx = 3, cy = 2, cz = 2, cw = 1\<rparr>, visited = []\<rparr>"

definition start_min_1111 :: hypercube_min where
  "start_min_1111 =
     \<lparr>size_min = 5, visited_min = [], exit_min = \<lparr>cx = 2, cy = 2, cz = 2, cw = 2\<rparr>,
      position_min = \<lparr>cx = 1, cy = 1, cz = 1, cw = 1\<rparr>\<rparr>"

section \<open>The canonical key is injective\<close>

text \<open>
  Integers print as an optional minus sign and decimal digits, so the commas of a key
  separate its four components and two coordinates with one key are equal.
\<close>

lemma digit_char_in: "n < 10 \<Longrightarrow> digit_char n \<in> set ''0123456789''"
  unfolding digit_char_def by (rule nth_mem) simp

lemma digit_char_inj:
  assumes "n < 10" "m < 10" "digit_char n = digit_char m"
  shows "n = m"
proof -
  have "distinct ''0123456789''" by simp
  moreover have "n < length ''0123456789''" "m < length ''0123456789''" using assms by simp_all
  ultimately show ?thesis using assms(3) unfolding digit_char_def
    by (simp only: nth_eq_iff_index_eq)
qed

lemma show_nat_digits: "set (show_nat n) \<subseteq> set ''0123456789''"
proof (induction n rule: show_nat.induct)
  case (1 n)
  show ?case
  proof (cases "n < 10")
    case True
    then show ?thesis using digit_char_in [of n] by (subst show_nat.simps) simp
  next
    case False
    have "n mod 10 < 10" by simp
    from digit_char_in [OF this] "1.IH" [OF False] False show ?thesis
      by (subst show_nat.simps) simp
  qed
qed

lemma show_nat_nonempty: "show_nat n \<noteq> []"
  by (subst show_nat.simps) simp

lemma show_nat_inj: "show_nat n = show_nat m \<Longrightarrow> n = m"
proof (induction n arbitrary: m rule: show_nat.induct)
  case (1 n)
  show ?case
  proof (cases "n < 10")
    case n: True
    show ?thesis
    proof (cases "m < 10")
      case True
      with n "1.prems" have "digit_char n = digit_char m"
        by (subst (asm) show_nat.simps, subst (asm) (2) show_nat.simps) simp
      with n True show ?thesis by (rule digit_char_inj)
    next
      case False
      with n "1.prems" have "[digit_char n] = show_nat (m div 10) @ [digit_char (m mod 10)]"
        by (subst (asm) show_nat.simps, subst (asm) (2) show_nat.simps) simp
      then show ?thesis using show_nat_nonempty [of "m div 10"] by simp
    qed
  next
    case n: False
    show ?thesis
    proof (cases "m < 10")
      case True
      with n "1.prems" have "show_nat (n div 10) @ [digit_char (n mod 10)] = [digit_char m]"
        by (subst (asm) show_nat.simps, subst (asm) (2) show_nat.simps) simp
      then show ?thesis using show_nat_nonempty [of "n div 10"] by simp
    next
      case False
      with n "1.prems" have
        "show_nat (n div 10) @ [digit_char (n mod 10)] = show_nat (m div 10) @ [digit_char (m mod 10)]"
        by (subst (asm) show_nat.simps, subst (asm) (2) show_nat.simps) simp
      then have a: "show_nat (n div 10) = show_nat (m div 10)"
        and b: "digit_char (n mod 10) = digit_char (m mod 10)" by simp_all
      from "1.IH" [OF n a] have d: "n div 10 = m div 10" .
      have "n mod 10 = m mod 10" by (rule digit_char_inj [OF _ _ b]) simp_all
      with d show ?thesis by (metis div_mult_mod_eq)
    qed
  qed
qed

lemma comma_not_digit: "CHR '','' \<notin> insert CHR ''-'' (set ''0123456789'')"
  by simp

lemma minus_not_digit: "CHR ''-'' \<notin> set ''0123456789''"
  by simp

lemma show_int_chars: "set (show_int i) \<subseteq> insert CHR ''-'' (set ''0123456789'')"
proof (cases "i < 0")
  case True
  have "set (show_nat (nat (- i))) \<subseteq> insert CHR ''-'' (set ''0123456789'')"
    by (rule subset_insertI2) (rule show_nat_digits)
  then have "set (CHR ''-'' # show_nat (nat (- i))) \<subseteq> insert CHR ''-'' (set ''0123456789'')"
    by (simp only: list.set insert_subset insertI1 simp_thms)
  with True show ?thesis by (simp only: show_int_def if_True)
next
  case False
  have "set (show_nat (nat i)) \<subseteq> insert CHR ''-'' (set ''0123456789'')"
    by (rule subset_insertI2) (rule show_nat_digits)
  with False show ?thesis by (simp only: show_int_def if_False)
qed

lemma show_int_comma_free: "CHR '','' \<notin> set (show_int i)"
proof
  assume "CHR '','' \<in> set (show_int i)"
  with show_int_chars have "CHR '','' \<in> insert CHR ''-'' (set ''0123456789'')" by (rule subsetD)
  with comma_not_digit show False by (rule notE)
qed

lemma show_nat_hd: "hd (show_nat n) \<noteq> CHR ''-''"
proof
  assume e: "hd (show_nat n) = CHR ''-''"
  have "hd (show_nat n) \<in> set (show_nat n)" using show_nat_nonempty by (rule hd_in_set)
  with show_nat_digits have "hd (show_nat n) \<in> set ''0123456789''" by (rule subsetD)
  with e minus_not_digit show False by (simp only:)
qed

lemma show_int_inj: "show_int i = show_int j \<Longrightarrow> i = j"
proof -
  assume e: "show_int i = show_int j"
  show ?thesis
  proof (cases "i < 0")
    case i: True
    show ?thesis
    proof (cases "j < 0")
      case True
      with i e have "show_nat (nat (- i)) = show_nat (nat (- j))" by (simp add: show_int_def)
      then have "nat (- i) = nat (- j)" by (rule show_nat_inj)
      with i True show ?thesis by simp
    next
      case False
      with i e have "show_nat (nat j) = CHR ''-'' # show_nat (nat (- i))" by (simp add: show_int_def)
      then have "hd (show_nat (nat j)) = CHR ''-''" by (simp only: list.sel)
      with show_nat_hd show ?thesis by (rule notE)
    qed
  next
    case i: False
    show ?thesis
    proof (cases "j < 0")
      case True
      with i e have "show_nat (nat i) = CHR ''-'' # show_nat (nat (- j))" by (simp add: show_int_def)
      then have "hd (show_nat (nat i)) = CHR ''-''" by (simp only: list.sel)
      with show_nat_hd show ?thesis by (rule notE)
    next
      case False
      with i e have "show_nat (nat i) = show_nat (nat j)" by (simp add: show_int_def)
      then have "nat i = nat j" by (rule show_nat_inj)
      with i False show ?thesis by simp
    qed
  qed
qed

lemma split_at_separator:
  assumes "c \<notin> set a" "c \<notin> set a'" "a @ c # r = a' @ c # r'"
  shows "a = a' \<and> r = r'"
  using assms
proof (induction a arbitrary: a')
  case Nil
  then show ?case by (cases a') auto
next
  case (Cons x a)
  then show ?case by (cases a') auto
qed

lemma key_inj: "key c = key c' \<Longrightarrow> c = c'"
proof -
  assume e: "key c = key c'"
  note cf = show_int_comma_free
  from e have
    "show_int (cx c) @ CHR '','' # (show_int (cy c) @ CHR '','' # (show_int (cz c) @ CHR '','' # show_int (cw c))) =
     show_int (cx c') @ CHR '','' # (show_int (cy c') @ CHR '','' # (show_int (cz c') @ CHR '','' # show_int (cw c')))"
    by (simp add: key_def)
  from split_at_separator [OF cf cf this] have 1: "show_int (cx c) = show_int (cx c')" and
    r1: "show_int (cy c) @ CHR '','' # (show_int (cz c) @ CHR '','' # show_int (cw c)) =
         show_int (cy c') @ CHR '','' # (show_int (cz c') @ CHR '','' # show_int (cw c'))"
    by blast+
  from split_at_separator [OF cf cf r1] have 2: "show_int (cy c) = show_int (cy c')" and
    r2: "show_int (cz c) @ CHR '','' # show_int (cw c) = show_int (cz c') @ CHR '','' # show_int (cw c')"
    by blast+
  from split_at_separator [OF cf cf r2] have 3: "show_int (cz c) = show_int (cz c')" and
    4: "show_int (cw c) = show_int (cw c')"
    by blast+
  from 1 2 3 4 have "cx c = cx c'" "cy c = cy c'" "cz c = cz c'" "cw c = cw c'"
    by (simp_all add: show_int_inj)
  then show ?thesis by simp
qed

section \<open>The random source\<close>

lemma js_rem_nonneg: "0 \<le> a \<Longrightarrow> 0 < b \<Longrightarrow> js_rem a b = a mod b"
  by (cases "a = 0") (simp_all add: js_rem_def)

lemma limit_bounds:
  assumes "0 < mx"
  shows "maxUint32 - mx < limit mx" and "limit mx \<le> maxUint32" and "limit mx mod mx = 0"
proof -
  have eq: "limit mx = maxUint32 - maxUint32 mod mx"
    unfolding limit_def by (simp add: minus_mod_eq_div_mult)
  have "maxUint32 mod mx < mx" using assms by simp
  then show "maxUint32 - mx < limit mx" using eq by linarith
  have "0 \<le> maxUint32 mod mx" using assms by simp
  then show "limit mx \<le> maxUint32" using eq by linarith
  show "limit mx mod mx = 0" by (simp add: limit_def)
qed

lemma secureRandomInt_range:
  assumes "0 < mx" and "secureRandomInt mx ds = Some (r, ds')"
  shows "0 \<le> r \<and> r < mx"
  using assms(2)
proof (induction ds)
  case Nil
  then show ?case by simp
next
  case (Cons d ds)
  show ?case
  proof (cases "uint d < limit mx")
    case True
    with Cons.prems have "r = js_rem (uint d) mx" by simp
    then have "r = uint d mod mx" using assms(1) by (simp add: js_rem_nonneg)
    then show ?thesis using assms(1) by simp
  next
    case False
    with Cons show ?thesis by simp
  qed
qed

text \<open>
  Claim C2, as the code has it. For every \<open>max > 0\<close> the threshold is
  \<open>limit = floor((2^32 - 1) / max) * max\<close>, computed from the largest 32-bit value and not
  from \<open>2^32\<close>. The call skips every draw that is not below \<open>limit\<close> and returns
  \<open>draw mod max\<close> for the first draw below it, leaving the later draws unused; it does
  not return while no such draw has come. The threshold lies between \<open>2^32 - max\<close> and
  \<open>2^32 - 1\<close>, so it accepts at least \<open>2^32 - max\<close> of the \<open>2^32\<close> draw values.
\<close>

theorem secureRandomInt_rejection:
  "0 < mx \<Longrightarrow>
     limit mx = (4294967295 div mx) * mx \<and>
     secureRandomInt mx ds =
       (case dropWhile (\<lambda>d. \<not> uint d < limit mx) ds of
          [] \<Rightarrow> None
        | d # rest \<Rightarrow> Some (uint d mod mx, rest)) \<and>
     2 ^ 32 - mx \<le> limit mx \<and> limit mx < 2 ^ 32"
proof -
  assume pos: "0 < mx"
  have a: "limit mx = (4294967295 div mx) * mx"
    by (simp add: limit_def maxUint32_def)
  have b: "secureRandomInt mx ds =
       (case dropWhile (\<lambda>d. \<not> uint d < limit mx) ds of
          [] \<Rightarrow> None
        | d # rest \<Rightarrow> Some (uint d mod mx, rest))"
    by (induction ds) (simp_all add: js_rem_nonneg pos)
  have c: "2 ^ 32 - mx \<le> limit mx" "limit mx < 2 ^ 32"
    using limit_bounds(1,2) [OF pos] by (simp_all add: maxUint32_def)
  from a b c show ?thesis by blast
qed

theorem secureRandomInt_rejection_witness:
  "(0::int) < 4 \<and> limit 4 = 4294967292 \<and>
   secureRandomInt 4 [0xFFFFFFFD, 2] = Some (2, []) \<and> 2 ^ 32 - 4 \<le> limit 4"
  using secureRandomInt_rejection [of 4 "[0xFFFFFFFD, 2]"]
  by (simp add: limit_def maxUint32_def)

text \<open>
  Claim C2 as it is written fails at \<open>max = 4\<close>, the grid size of the extended game:
  the threshold is \<open>2^32 - 4\<close>, not \<open>floor(2^32 / 4) * 4 = 2^32\<close>; it covers fewer than
  \<open>2^32 - 4 + 1\<close> values; and the draw \<open>0xFFFFFFFD\<close>, which is below
  \<open>floor(2^32 / 4) * 4\<close>, is not returned as \<open>draw mod 4\<close> but redrawn.
\<close>

theorem secureRandomInt_limit_counterexample:
  "limit 4 \<noteq> (2 ^ 32 div 4) * 4 \<and>
   \<not> 2 ^ 32 - 4 + 1 \<le> limit 4 \<and>
   uint (0xFFFFFFFD :: 32 word) < (2 ^ 32 div 4) * 4 \<and>
   secureRandomInt 4 [0xFFFFFFFD, 2] \<noteq> Some (uint (0xFFFFFFFD :: 32 word) mod 4, [2]) \<and>
   secureRandomInt 4 [0xFFFFFFFD, 2] = Some (2, [])"
  by (simp add: limit_def maxUint32_def js_rem_def)

section \<open>Trial division decides primality\<close>

lemma isPrime_loop_iff:
  "2 \<le> i \<Longrightarrow> 0 \<le> n \<Longrightarrow> isPrime_loop n i = (\<forall>d. i \<le> d \<and> d * d \<le> n \<longrightarrow> \<not> d dvd n)"
proof (induction n i rule: isPrime_loop.induct)
  case (1 n i)
  show ?case
  proof (cases "i * i \<le> n")
    case False
    have "\<not> d * d \<le> n" if "i \<le> d" for d
    proof -
      have "i * i \<le> d * d" using that "1.prems"(1) by (intro mult_mono) simp_all
      with False show ?thesis by linarith
    qed
    then show ?thesis using False by (subst isPrime_loop.simps) auto
  next
    case True
    show ?thesis
    proof (cases "js_rem n i = 0")
      case z: True
      then have "i dvd n" using "1.prems" by (simp add: js_rem_nonneg mod_eq_0_iff_dvd)
      with True z show ?thesis by (subst isPrime_loop.simps) auto
    next
      case nz: False
      then have nd: "\<not> i dvd n" using "1.prems" by (simp add: js_rem_nonneg mod_eq_0_iff_dvd)
      have IH: "isPrime_loop n (i + 1) = (\<forall>d. i + 1 \<le> d \<and> d * d \<le> n \<longrightarrow> \<not> d dvd n)"
        using "1.IH" [OF True nz] "1.prems" by simp
      have "(\<forall>d. i \<le> d \<and> d * d \<le> n \<longrightarrow> \<not> d dvd n) = (\<forall>d. i + 1 \<le> d \<and> d * d \<le> n \<longrightarrow> \<not> d dvd n)"
      proof -
        have "i \<le> d \<longleftrightarrow> d = i \<or> i + 1 \<le> d" for d by linarith
        then show ?thesis using nd by auto
      qed
      with IH True nz show ?thesis by (subst isPrime_loop.simps) simp
    qed
  qed
qed

lemma small_divisor:
  fixes n d :: int
  assumes "2 \<le> d" "d < n" "d dvd n"
  shows "\<exists>m. 2 \<le> m \<and> m * m \<le> n \<and> m dvd n"
proof -
  from assms(3) obtain e where e: "n = d * e" by (auto simp: dvd_def)
  have epos: "0 < e"
  proof (rule ccontr)
    assume "\<not> 0 < e"
    then have "e \<le> 0" by simp
    then have "d * e \<le> 0" using assms(1) by (simp add: mult_le_0_iff)
    with e assms show False by linarith
  qed
  have "e \<noteq> 1" using e assms(2) by auto
  with epos have e2: "2 \<le> e" by linarith
  show ?thesis
  proof (cases "d \<le> e")
    case True
    then have "d * d \<le> d * e" using assms(1) by (intro mult_left_mono) simp_all
    with e assms show ?thesis by auto
  next
    case False
    then have "e * e \<le> d * e" using e2 by (intro mult_right_mono) simp_all
    moreover have "e dvd n" using e by simp
    ultimately show ?thesis using e e2 by auto
  qed
qed

lemma isPrime_correct: "isPrime n = is_prime_spec n"
proof (cases "n < 2")
  case True
  then show ?thesis by (simp add: isPrime_def is_prime_spec_def)
next
  case False
  then have n2: "2 \<le> n" by simp
  have "(\<forall>d. 2 \<le> d \<and> d * d \<le> n \<longrightarrow> \<not> d dvd n) = (\<forall>d \<in> {2..<n}. \<not> d dvd n)"
  proof
    assume a: "\<forall>d. 2 \<le> d \<and> d * d \<le> n \<longrightarrow> \<not> d dvd n"
    show "\<forall>d \<in> {2..<n}. \<not> d dvd n"
    proof
      fix d assume "d \<in> {2..<n}"
      then have d: "2 \<le> d" "d < n" by simp_all
      show "\<not> d dvd n"
      proof
        assume "d dvd n"
        from small_divisor [OF d this] a show False by blast
      qed
    qed
  next
    assume b: "\<forall>d \<in> {2..<n}. \<not> d dvd n"
    show "\<forall>d. 2 \<le> d \<and> d * d \<le> n \<longrightarrow> \<not> d dvd n"
    proof (intro allI impI)
      fix d :: int assume d: "2 \<le> d \<and> d * d \<le> n"
      then have "d * 2 \<le> d * d" by (intro mult_left_mono) simp_all
      with d have "d < n" by linarith
      with d b show "\<not> d dvd n" by simp
    qed
  qed
  then show ?thesis
    using n2 by (simp add: isPrime_def is_prime_spec_def isPrime_loop_iff)
qed

lemma isPrime_multiple_of_4: "\<not> isPrime (4 * k)"
proof (cases "4 * k < 2")
  case True
  then show ?thesis by (simp add: isPrime_def)
next
  case False
  then have "2 * 2 \<le> 4 * k" by simp
  moreover have "js_rem (4 * k) 2 = 0" using False by (simp add: js_rem_nonneg)
  ultimately have "\<not> isPrime_loop (4 * k) 2" by (subst isPrime_loop.simps) simp
  then show ?thesis by (simp add: isPrime_def)
qed

section \<open>The exit cell and the trap predicate\<close>

text \<open>
  Claim C9. In the minimal variant, for every grid size \<open>N \<ge> 1\<close> the component sum of
  the centre is \<open>4 * floor(N / 2)\<close> and the centre, which is the exit, is not a trap.
\<close>

theorem exit_never_trap_min:
  "1 \<le> n \<Longrightarrow>
     cx (getCenter n) + cy (getCenter n) + cz (getCenter n) + cw (getCenter n) = 4 * (n div 2) \<and>
     \<not> isTrap_min (getCenter n)"
proof -
  have s: "cx (getCenter n) + cy (getCenter n) + cz (getCenter n) + cw (getCenter n) = 4 * (n div 2)"
    by (simp add: getCenter_def Let_def)
  then show ?thesis
    by (simp add: isTrap_min_def Let_def isPrime_multiple_of_4)
qed

theorem exit_never_trap_min_witness:
  "(1::int) \<le> 5 \<and> getCenter 5 = \<lparr>cx = 2, cy = 2, cz = 2, cw = 2\<rparr> \<and> \<not> isTrap_min (getCenter 5)"
  using exit_never_trap_min [of 5] by (simp add: getCenter_def)

text \<open>
  Claim C8. In the extended variant trap and exit are not exclusive. On the size-4 grid,
  whose exit is \<open>(2,2,2,2)\<close>, the engine that starts at \<open>(3,2,2,1)\<close> and is moved \<open>wp\<close>
  then \<open>xn\<close> lands on the exit at turn 2, where \<open>7*2 + 11*2 + 13*2 + 17*2 + 19*2 = 134\<close>
  and \<open>134 mod 97 = 37\<close>; the result of that move has both flags set.
\<close>

theorem trap_and_exit_together:
  "construct 4 [3, 2, 2, 1] = Some (start_3221, []) \<and>
   exit_of start_3221 = \<lparr>cx = 2, cy = 2, cz = 2, cw = 2\<rparr> \<and>
   fst (move (play start_3221 [''wp'']) ''xn'') =
     Inr \<lparr>res_position = \<lparr>cx = 2, cy = 2, cz = 2, cw = 2\<rparr>, res_trap = True,
          res_exit = True, res_turn = 2\<rparr> \<and>
   js_rem (2 * 7 + 2 * 11 + 2 * 13 + 2 * 17 + 2 * 19) 97 = 37 \<and> isPrime 37"
  by code_simp

section \<open>What one \<open>move\<close> call does\<close>

lemma move_failure:
  "move s dir = (Inl e, s') \<Longrightarrow> s' = s"
  by (auto simp: move_def Let_def split: option.splits if_splits)

lemma move_success:
  assumes "move s dir = (Inr r, s')"
  shows "\<exists>d. deltas dir = Some d \<and> isInside s (foldl add_axis (position s) d) \<and>
           s' = s\<lparr>turn := turn s + 1, position := foldl add_axis (position s) d,
                   visited := map_set (visited s) (key (foldl add_axis (position s) d))
                     \<lparr>mem_trap = res_trap r, mem_turn = turn s + 1\<rparr>\<rparr> \<and>
           r = \<lparr>res_position = foldl add_axis (position s) d,
                res_trap = isTrap (s\<lparr>turn := turn s + 1\<rparr>) (foldl add_axis (position s) d),
                res_exit = isExit s (foldl add_axis (position s) d),
                res_turn = turn s + 1\<rparr>"
  using assms
  by (auto simp: move_def Let_def isTrap_def isExit_def split: option.splits if_splits)

lemma move_unknown_token:
  "map_of own_deltas dir = None \<Longrightarrow> dir \<notin> set object_prototype_names \<Longrightarrow>
   move s dir = (Inl ''Invalid direction.'', s)"
  by (simp add: move_def deltas_def)

lemma move_own_token:
  assumes "map_of own_deltas dir = Some d" and "move s dir = (Inr r, s')"
  shows "\<exists>a v. \<bar>v\<bar> = 1 \<and> position s' = add_axis (position s) (a, v)"
proof -
  from assms(1) have "d \<in> snd ` set own_deltas" by (metis map_of_SomeD snd_conv image_eqI)
  then obtain a v where d: "d = [(a, v)]" "\<bar>v\<bar> = 1"
    by (auto simp: own_deltas_def)
  have "deltas dir = Some [(a, v)]" using assms(1) d by (simp add: deltas_def)
  with assms(2) have "position s' = add_axis (position s) (a, v)"
    by (auto simp: move_def Let_def split: if_splits)
  with d show ?thesis by blast
qed

lemma isInside_iff:
  "isInside s c \<longleftrightarrow>
     0 \<le> cx c \<and> cx c < size_of s \<and> 0 \<le> cy c \<and> cy c < size_of s \<and>
     0 \<le> cz c \<and> cz c < size_of s \<and> 0 \<le> cw c \<and> cw c < size_of s"
  by (auto simp: isInside_def)

lemma move_size: "size_of (snd (move s dir)) = size_of s"
  by (simp add: move_def Let_def split: option.splits)

lemma move_exit: "exit_of (snd (move s dir)) = exit_of s"
  by (simp add: move_def Let_def split: option.splits)

lemma move_keeps_inside:
  "isInside s (position s) \<Longrightarrow> isInside (snd (move s dir)) (position (snd (move s dir)))"
  by (simp add: move_def Let_def isInside_iff split: option.splits)

lemma play_size: "size_of (play s dirs) = size_of s"
  by (induction dirs arbitrary: s) (simp_all add: move_size)

lemma play_exit: "exit_of (play s dirs) = exit_of s"
  by (induction dirs arbitrary: s) (simp_all add: move_exit)

lemma play_keeps_inside:
  "isInside s (position s) \<Longrightarrow> isInside (play s dirs) (position (play s dirs))"
  by (induction dirs arbitrary: s) (simp_all add: move_keeps_inside)

lemma isInside_min_iff:
  "isInside_min s c \<longleftrightarrow>
     0 \<le> cx c \<and> cx c < size_min s \<and> 0 \<le> cy c \<and> cy c < size_min s \<and>
     0 \<le> cz c \<and> cz c < size_min s \<and> 0 \<le> cw c \<and> cw c < size_min s"
  by (auto simp: isInside_min_def)

lemma move_min_failure:
  "move_min s dir = (Inl e, s') \<Longrightarrow> s' = s"
  by (auto simp: move_min_def Let_def split: option.splits if_splits)

lemma move_min_size: "size_min (snd (move_min s dir)) = size_min s"
  by (simp add: move_min_def Let_def split: option.splits)

lemma move_min_keeps_inside:
  "isInside_min s (position_min s) \<Longrightarrow>
   isInside_min (snd (move_min s dir)) (position_min (snd (move_min s dir)))"
  by (simp add: move_min_def Let_def isInside_min_iff split: option.splits)

lemma play_min_size: "size_min (play_min s dirs) = size_min s"
  by (induction dirs arbitrary: s) (simp_all add: move_min_size)

lemma play_min_keeps_inside:
  "isInside_min s (position_min s) \<Longrightarrow>
   isInside_min (play_min s dirs) (position_min (play_min s dirs))"
  by (induction dirs arbitrary: s) (simp_all add: move_min_keeps_inside)

section \<open>The trap flag of a move\<close>

text \<open>
  Claim C3. In the extended variant every successful move increments the turn counter,
  and the trap flag it returns says whether \<open>(7x + 11y + 13z + 17w + 19 * turn) mod 97\<close>
  is prime, for the new position \<open>(x,y,z,w)\<close> and the turn value after the increment.
  The turn counter of an engine is never negative (it starts at 0 and only grows).
\<close>

theorem move_trap_uses_new_turn:
  assumes "0 \<le> turn s" and "move s dir = (Inr r, s')"
  shows "turn s' = turn s + 1 \<and> res_turn r = turn s' \<and> res_position r = position s' \<and>
         res_trap r =
           is_prime_spec ((7 * cx (position s') + 11 * cy (position s') + 13 * cz (position s') +
                           17 * cw (position s') + 19 * turn s') mod 97)"
proof -
  from move_success [OF assms(2)] obtain d where
    ins: "isInside s (foldl add_axis (position s) d)" and
    s': "s' = s\<lparr>turn := turn s + 1, position := foldl add_axis (position s) d,
                   visited := map_set (visited s) (key (foldl add_axis (position s) d))
                     \<lparr>mem_trap = res_trap r, mem_turn = turn s + 1\<rparr>\<rparr>" and
    r: "r = \<lparr>res_position = foldl add_axis (position s) d,
                res_trap = isTrap (s\<lparr>turn := turn s + 1\<rparr>) (foldl add_axis (position s) d),
                res_exit = isExit s (foldl add_axis (position s) d),
                res_turn = turn s + 1\<rparr>"
    by blast
  define p where "p = foldl add_axis (position s) d"
  have pos: "position s' = p" "turn s' = turn s + 1" using s' by (simp_all add: p_def)
  have nonneg: "0 \<le> cx p" "0 \<le> cy p" "0 \<le> cz p" "0 \<le> cw p"
    using ins by (simp_all add: isInside_iff p_def)
  have v: "0 \<le> cx p * 7 + cy p * 11 + cz p * 13 + cw p * 17 + (turn s + 1) * 19"
    using nonneg assms(1) by simp
  have "res_trap r = isPrime (js_rem (cx p * 7 + cy p * 11 + cz p * 13 + cw p * 17 + (turn s + 1) * 19) 97)"
    by (subst r) (simp add: isTrap_def Let_def p_def)
  also have "\<dots> = isPrime ((cx p * 7 + cy p * 11 + cz p * 13 + cw p * 17 + (turn s + 1) * 19) mod 97)"
    using v by (simp add: js_rem_nonneg)
  also have "\<dots> = is_prime_spec ((7 * cx p + 11 * cy p + 13 * cz p + 17 * cw p + 19 * (turn s + 1)) mod 97)"
    by (simp add: isPrime_correct mult.commute)
  finally have "res_trap r = is_prime_spec ((7 * cx p + 11 * cy p + 13 * cz p + 17 * cw p + 19 * (turn s + 1)) mod 97)" .
  moreover have "res_turn r = turn s + 1" "res_position r = p" by (subst r, simp add: p_def)+
  ultimately show ?thesis using pos by simp
qed

theorem move_trap_uses_new_turn_witness:
  "0 \<le> turn (play start_1111 [''yp'', ''yn'']) \<and>
   move (play start_1111 [''yp'', ''yn'']) ''yp'' =
     (Inr \<lparr>res_position = \<lparr>cx = 1, cy = 2, cz = 1, cw = 1\<rparr>, res_trap = True,
           res_exit = False, res_turn = 3\<rparr>,
      \<lparr>size_of = 4, turn = 3, exit_of = \<lparr>cx = 2, cy = 2, cz = 2, cw = 2\<rparr>,
       position = \<lparr>cx = 1, cy = 2, cz = 1, cw = 1\<rparr>,
       visited = [(''1,2,1,1'', \<lparr>mem_trap = True, mem_turn = 3\<rparr>),
                  (''1,1,1,1'', \<lparr>mem_trap = False, mem_turn = 2\<rparr>)]\<rparr>) \<and>
   is_prime_spec ((7 * 1 + 11 * 2 + 13 * 1 + 17 * 1 + 19 * 3) mod 97)"
proof -
  have t: "0 \<le> turn (play start_1111 [''yp'', ''yn''])" by code_simp
  have m: "move (play start_1111 [''yp'', ''yn'']) ''yp'' =
     (Inr \<lparr>res_position = \<lparr>cx = 1, cy = 2, cz = 1, cw = 1\<rparr>, res_trap = True,
           res_exit = False, res_turn = 3\<rparr>,
      \<lparr>size_of = 4, turn = 3, exit_of = \<lparr>cx = 2, cy = 2, cz = 2, cw = 2\<rparr>,
       position = \<lparr>cx = 1, cy = 2, cz = 1, cw = 1\<rparr>,
       visited = [(''1,2,1,1'', \<lparr>mem_trap = True, mem_turn = 3\<rparr>),
                  (''1,1,1,1'', \<lparr>mem_trap = False, mem_turn = 2\<rparr>)]\<rparr>)"
    by code_simp
  from move_trap_uses_new_turn [OF t m] show ?thesis using t m by simp
qed

section \<open>The player stays inside the grid\<close>

lemma randomStart_range:
  assumes "0 < n" and "randomStart n ds = Some (p, ds')"
  shows "0 \<le> cx p \<and> cx p < n \<and> 0 \<le> cy p \<and> cy p < n \<and>
         0 \<le> cz p \<and> cz p < n \<and> 0 \<le> cw p \<and> cw p < n"
proof -
  from assms(2) obtain x y z w ds1 ds2 ds3 where
    "secureRandomInt n ds = Some (x, ds1)" "secureRandomInt n ds1 = Some (y, ds2)"
    "secureRandomInt n ds2 = Some (z, ds3)" "secureRandomInt n ds3 = Some (w, ds')"
    "p = \<lparr>cx = x, cy = y, cz = z, cw = w\<rparr>"
    by (auto simp: randomStart_def split: option.splits)
  then show ?thesis
    using secureRandomInt_range [OF assms(1)] by simp
qed

text \<open>
  Claim C5. An engine of positive size that has been constructed (the start draws
  came) and then taken through any sequence of \<open>move\<close> calls, with any arguments, has
  every component of its position in \<open>[0, size)\<close>. This holds for the extended and for
  the minimal engine.
\<close>

theorem position_always_inside:
  "(0 < n \<and> construct n ds = Some (s0, ds') \<longrightarrow>
      size_of (play s0 dirs) = n \<and>
      list_all (\<lambda>v. 0 \<le> v \<and> v < n)
        [cx (position (play s0 dirs)), cy (position (play s0 dirs)),
         cz (position (play s0 dirs)), cw (position (play s0 dirs))]) \<and>
   (0 < k \<and> construct_min k es = Some (m0, es') \<longrightarrow>
      size_min (play_min m0 dirs') = k \<and>
      list_all (\<lambda>v. 0 \<le> v \<and> v < k)
        [cx (position_min (play_min m0 dirs')), cy (position_min (play_min m0 dirs')),
         cz (position_min (play_min m0 dirs')), cw (position_min (play_min m0 dirs'))])"
proof (intro conjI impI; elim conjE)
  assume n: "0 < n" and c: "construct n ds = Some (s0, ds')"
  then obtain p where p: "randomStart n ds = Some (p, ds')" and
    s0: "s0 = \<lparr>size_of = n, turn = 0, exit_of = getCenter n, position = p, visited = []\<rparr>"
    by (auto simp: construct_def split: option.splits)
  have "isInside s0 (position s0)"
    using randomStart_range [OF n p] by (simp add: s0 isInside_iff)
  then have i: "isInside (play s0 dirs) (position (play s0 dirs))" by (rule play_keeps_inside)
  show sz: "size_of (play s0 dirs) = n" by (simp add: play_size s0)
  show "list_all (\<lambda>v. 0 \<le> v \<and> v < n)
          [cx (position (play s0 dirs)), cy (position (play s0 dirs)),
           cz (position (play s0 dirs)), cw (position (play s0 dirs))]"
    using i sz by (simp add: isInside_iff)
next
  assume k: "0 < k" and c: "construct_min k es = Some (m0, es')"
  then obtain p where p: "randomStart k es = Some (p, es')" and
    m0: "m0 = \<lparr>size_min = k, visited_min = [], exit_min = getCenter k, position_min = p\<rparr>"
    by (auto simp: construct_min_def split: option.splits)
  have "isInside_min m0 (position_min m0)"
    using randomStart_range [OF k p] by (simp add: m0 isInside_min_iff)
  then have i: "isInside_min (play_min m0 dirs') (position_min (play_min m0 dirs'))"
    by (rule play_min_keeps_inside)
  show sz: "size_min (play_min m0 dirs') = k" by (simp add: play_min_size m0)
  show "list_all (\<lambda>v. 0 \<le> v \<and> v < k)
          [cx (position_min (play_min m0 dirs')), cy (position_min (play_min m0 dirs')),
           cz (position_min (play_min m0 dirs')), cw (position_min (play_min m0 dirs'))]"
    using i sz by (simp add: isInside_min_iff)
qed

theorem position_always_inside_witness:
  "(0::int) < 4 \<and> construct 4 [1, 1, 1, 1] = Some (start_1111, []) \<and>
   position (play start_1111 [''xn'', ''xn'', ''yp'', ''up'']) = \<lparr>cx = 0, cy = 2, cz = 1, cw = 1\<rparr> \<and>
   (0::int) < 5 \<and> construct_min 5 [1, 1, 1, 1] = Some (start_min_1111, []) \<and>
   position_min (play_min start_min_1111 [''wn'', ''wn'', ''zp'']) = \<lparr>cx = 1, cy = 1, cz = 2, cw = 0\<rparr> \<and>
   list_all (\<lambda>v. 0 \<le> v \<and> v < 4)
     [cx (position (play start_1111 [''xn'', ''xn'', ''yp'', ''up''])),
      cy (position (play start_1111 [''xn'', ''xn'', ''yp'', ''up''])),
      cz (position (play start_1111 [''xn'', ''xn'', ''yp'', ''up''])),
      cw (position (play start_1111 [''xn'', ''xn'', ''yp'', ''up'']))] \<and>
   list_all (\<lambda>v. 0 \<le> v \<and> v < 5)
     [cx (position_min (play_min start_min_1111 [''wn'', ''wn'', ''zp''])),
      cy (position_min (play_min start_min_1111 [''wn'', ''wn'', ''zp''])),
      cz (position_min (play_min start_min_1111 [''wn'', ''wn'', ''zp''])),
      cw (position_min (play_min start_min_1111 [''wn'', ''wn'', ''zp'']))]"
proof -
  have c: "construct 4 [1, 1, 1, 1] = Some (start_1111, [])" by code_simp
  have cm: "construct_min 5 [1, 1, 1, 1] = Some (start_min_1111, [])" by code_simp
  have p: "position (play start_1111 [''xn'', ''xn'', ''yp'', ''up'']) = \<lparr>cx = 0, cy = 2, cz = 1, cw = 1\<rparr>"
    by code_simp
  have pm: "position_min (play_min start_min_1111 [''wn'', ''wn'', ''zp'']) = \<lparr>cx = 1, cy = 1, cz = 2, cw = 0\<rparr>"
    by code_simp
  from position_always_inside [of 4 "[1, 1, 1, 1]" start_1111 "[]" "[''xn'', ''xn'', ''yp'', ''up'']"
      5 "[1, 1, 1, 1]" start_min_1111 "[]" "[''wn'', ''wn'', ''zp'']"]
  show ?thesis using c cm p pm by simp
qed

section \<open>Visited memory\<close>

lemma map_of_map_set: "map_of (map_set m k v) = (map_of m)(k \<mapsto> v)"
  by (induction m) (auto simp: fun_eq_iff)

lemma map_set_keys: "fst ` set (map_set m k v) = insert k (fst ` set m)"
proof -
  have "fst ` set (map_set m k v) = dom (map_of (map_set m k v))"
    by (simp add: dom_map_of_conv_image_fst)
  also have "\<dots> = insert k (dom (map_of m))"
    by (simp add: map_of_map_set)
  finally show ?thesis by (simp add: dom_map_of_conv_image_fst)
qed

lemma move_success_turn_visited:
  assumes "move s dir = (Inr r, s')"
  shows "turn s' = turn s + 1 \<and>
         visited s' = map_set (visited s) (key (res_position r))
                        \<lparr>mem_trap = res_trap r, mem_turn = res_turn r\<rparr>"
  using assms
  by (auto simp: move_def Let_def split: option.splits if_splits)

lemma move_visited_bound:
  assumes "int (card (fst ` set (visited s))) \<le> turn s"
  shows "int (card (fst ` set (visited (snd (move s dir))))) \<le> turn (snd (move s dir))"
proof (cases "fst (move s dir)")
  case (Inl e)
  then have "move s dir = (Inl e, snd (move s dir))" by (simp add: prod_eq_iff)
  from move_failure [OF this] assms show ?thesis by simp
next
  case (Inr r)
  then have "move s dir = (Inr r, snd (move s dir))" by (simp add: prod_eq_iff)
  from move_success_turn_visited [OF this] obtain k v where
    "visited (snd (move s dir)) = map_set (visited s) k v" "turn (snd (move s dir)) = turn s + 1"
    by blast
  moreover have "card (insert k (fst ` set (visited s))) \<le> Suc (card (fst ` set (visited s)))"
    by (simp add: card_insert_if)
  ultimately show ?thesis using assms by (simp add: map_set_keys)
qed

text \<open>
  Claim C10. In the extended variant, after any sequence of \<open>move\<close> calls from a freshly
  constructed engine, the number of distinct keys in the visited memory is at most the
  turn counter.
\<close>

theorem visited_count_le_turn:
  assumes "construct n ds = Some (s0, ds')"
  shows "int (card (fst ` set (visited (play s0 dirs)))) \<le> turn (play s0 dirs)"
proof -
  have "int (card (fst ` set (visited s))) \<le> turn s \<Longrightarrow>
        int (card (fst ` set (visited (play s dirs)))) \<le> turn (play s dirs)" for s
    by (induction dirs arbitrary: s) (simp_all add: move_visited_bound)
  moreover have "visited s0 = []" "turn s0 = 0"
    using assms by (auto simp: construct_def split: option.splits)
  ultimately show ?thesis by simp
qed

theorem visited_count_le_turn_witness:
  "construct 4 [1, 1, 1, 1] = Some (start_1111, []) \<and>
   map fst (visited (play start_1111 [''yp'', ''yn'', ''yy'', ''yp''])) = [''1,2,1,1'', ''1,1,1,1''] \<and>
   turn (play start_1111 [''yp'', ''yn'', ''yy'', ''yp'']) = 3 \<and>
   int (card (fst ` set (visited (play start_1111 [''yp'', ''yn'', ''yy'', ''yp''])))) \<le>
     turn (play start_1111 [''yp'', ''yn'', ''yy'', ''yp''])"
proof -
  have c: "construct 4 [1, 1, 1, 1] = Some (start_1111, [])" by code_simp
  have k: "map fst (visited (play start_1111 [''yp'', ''yn'', ''yy'', ''yp''])) = [''1,2,1,1'', ''1,1,1,1'']"
    by code_simp
  have t: "turn (play start_1111 [''yp'', ''yn'', ''yy'', ''yp'']) = 3" by code_simp
  from visited_count_le_turn [OF c, of "[''yp'', ''yn'', ''yy'', ''yp'']"]
  show ?thesis using c k t by simp
qed

lemma move_keeps_keys:
  assumes "k \<in> fst ` set (visited s)"
  shows "k \<in> fst ` set (visited (snd (move s dir)))"
proof (cases "fst (move s dir)")
  case (Inl e)
  then have "move s dir = (Inl e, snd (move s dir))" by (simp add: prod_eq_iff)
  from move_failure [OF this] assms show ?thesis by simp
next
  case (Inr r)
  then have "move s dir = (Inr r, snd (move s dir))" by (simp add: prod_eq_iff)
  from move_success_turn_visited [OF this] assms show ?thesis
    by (simp add: map_set_keys)
qed

lemma play_keeps_keys:
  "k \<in> fst ` set (visited s) \<Longrightarrow> k \<in> fst ` set (visited (play s dirs))"
  by (induction dirs arbitrary: s) (simp_all add: move_keeps_keys)

lemma move_min_keeps_keys:
  "k \<in> set (visited_min s) \<Longrightarrow> k \<in> set (visited_min (snd (move_min s dir)))"
  by (simp add: move_min_def Let_def set_add_def split: option.splits)

lemma play_min_keeps_keys:
  "k \<in> set (visited_min s) \<Longrightarrow> k \<in> set (visited_min (play_min s dirs))"
  by (induction dirs arbitrary: s) (simp_all add: move_min_keeps_keys)

text \<open>
  Claim C1, as the code has it. A key that is in the visited memory stays in it through
  every later \<open>move\<close> call. In the extended variant a failing move leaves its record as it
  is; a successful move leaves it as it is unless the key is that of the cell just
  entered, whose record becomes the trap flag and turn of this move, whatever was
  recorded before. The minimal variant records keys only, and keeps them.
\<close>

theorem visited_kept_and_refreshed:
  "(map_of (visited s) k = Some m \<longrightarrow>
      map_of (visited (snd (move s dir))) k =
        Some (case fst (move s dir) of
                Inl e \<Rightarrow> m
              | Inr r \<Rightarrow> if k = key (res_position r)
                         then \<lparr>mem_trap = res_trap r, mem_turn = res_turn r\<rparr> else m) \<and>
      k \<in> fst ` set (visited (play s dirs))) \<and>
   (k \<in> set (visited_min t) \<longrightarrow> k \<in> set (visited_min (play_min t dirs)))"
proof (intro conjI impI)
  assume a: "map_of (visited s) k = Some m"
  show "map_of (visited (snd (move s dir))) k =
        Some (case fst (move s dir) of
                Inl e \<Rightarrow> m
              | Inr r \<Rightarrow> if k = key (res_position r)
                         then \<lparr>mem_trap = res_trap r, mem_turn = res_turn r\<rparr> else m)"
  proof (cases "fst (move s dir)")
    case (Inl e)
    then have "move s dir = (Inl e, snd (move s dir))" by (simp add: prod_eq_iff)
    from move_failure [OF this] a Inl show ?thesis by simp
  next
    case (Inr r)
    then have "move s dir = (Inr r, snd (move s dir))" by (simp add: prod_eq_iff)
    from move_success_turn_visited [OF this] a Inr show ?thesis
      by (simp add: map_of_map_set)
  qed
  from a have "k \<in> fst ` set (visited s)"
    by (metis map_of_SomeD fst_conv image_eqI)
  then show "k \<in> fst ` set (visited (play s dirs))" by (rule play_keeps_keys)
next
  assume "k \<in> set (visited_min t)"
  then show "k \<in> set (visited_min (play_min t dirs))" by (rule play_min_keeps_keys)
qed

theorem visited_kept_and_refreshed_witness:
  "map_of (visited (play start_1111 [''yp'', ''yn''])) ''1,2,1,1'' =
     Some \<lparr>mem_trap = False, mem_turn = 1\<rparr> \<and>
   map_of (visited (snd (move (play start_1111 [''yp'', ''yn'']) ''yp''))) ''1,2,1,1'' =
     Some \<lparr>mem_trap = True, mem_turn = 3\<rparr> \<and>
   ''1,2,1,1'' \<in> fst ` set (visited (play (play start_1111 [''yp'', ''yn'']) [''wp'', ''wp''])) \<and>
   ''1,2,1,1'' \<in> set (visited_min (play_min start_min_1111 [''yp''])) \<and>
   ''1,2,1,1'' \<in> set (visited_min (play_min (play_min start_min_1111 [''yp'']) [''wp'', ''wp'']))"
proof -
  have a: "map_of (visited (play start_1111 [''yp'', ''yn''])) ''1,2,1,1'' =
     Some \<lparr>mem_trap = False, mem_turn = 1\<rparr>"
    by code_simp
  have b: "''1,2,1,1'' \<in> set (visited_min (play_min start_min_1111 [''yp'']))"
    by code_simp
  have c: "fst (move (play start_1111 [''yp'', ''yn'']) ''yp'') =
     Inr \<lparr>res_position = \<lparr>cx = 1, cy = 2, cz = 1, cw = 1\<rparr>, res_trap = True,
          res_exit = False, res_turn = 3\<rparr>"
    by code_simp
  have d: "key \<lparr>cx = 1, cy = 2, cz = 1, cw = 1\<rparr> = ''1,2,1,1''" by code_simp
  from visited_kept_and_refreshed [of "play start_1111 [''yp'', ''yn'']" "''1,2,1,1''"
      "\<lparr>mem_trap = False, mem_turn = 1\<rparr>" "''yp''" "[''wp'', ''wp'']"
      "play_min start_min_1111 [''yp'']"]
  show ?thesis using a b c d by simp
qed

text \<open>
  Claim C1 as it is written fails in the extended variant. From the start \<open>(1,1,1,1)\<close>
  of the size-4 game, \<open>yp\<close> enters \<open>(1,2,1,1)\<close> at turn 1 and records it safe; after
  \<open>yn\<close>, the move \<open>yp\<close> enters the same cell at turn 3, where it is a trap, and the
  record of the key is overwritten with the other trap value.
\<close>

theorem revisit_overwrites_trap_counterexample:
  "construct 4 [1, 1, 1, 1] = Some (start_1111, []) \<and>
   map_of (visited (play start_1111 [''yp''])) ''1,2,1,1'' =
     Some \<lparr>mem_trap = False, mem_turn = 1\<rparr> \<and>
   map_of (visited (play start_1111 [''yp'', ''yn''])) ''1,2,1,1'' =
     Some \<lparr>mem_trap = False, mem_turn = 1\<rparr> \<and>
   map_of (visited (play start_1111 [''yp'', ''yn'', ''yp''])) ''1,2,1,1'' =
     Some \<lparr>mem_trap = True, mem_turn = 3\<rparr>"
  by code_simp

section \<open>The slice renderer\<close>

lemma isExit_iff: "isExit s c \<longleftrightarrow> c = exit_of s"
  by (auto simp: isExit_def)

lemma cell_classify:
  assumes "exit_of s = getCenter (size_of s)"
  shows "cell s y z x = marker_text (classify s \<lparr>cx = x, cy = y, cz = z, cw = cw (position s)\<rparr>)"
proof -
  obtain a b c d where pos: "position s = \<lparr>cx = a, cy = b, cz = c, cw = d\<rparr>"
    by (cases "position s") simp
  show ?thesis
    using assms
    by (auto simp: cell_def classify_def Let_def isExit_iff map_has_def map_get_def pos
             split: option.splits)
qed

lemma length_cell: "length (cell s y z x) = 3"
  by (simp add: cell_def Let_def split: option.splits)

text \<open>Blocks of one length: where a block, and an element of a block, lies in the whole.\<close>

lemma concat_nth_uniform:
  assumes "\<forall>b \<in> set bs. length b = m" and "i < length bs" and "j < m"
  shows "concat bs ! (i * m + j) = bs ! i ! j"
  using assms
proof (induction bs arbitrary: i)
  case Nil
  then show ?case by simp
next
  case (Cons b bs)
  show ?case
  proof (cases i)
    case 0
    with Cons.prems show ?thesis by (simp add: nth_append)
  next
    case (Suc i')
    have "(b @ concat bs) ! (m + (i' * m + j)) = concat bs ! (i' * m + j)"
      using Cons.prems(1) by (simp add: nth_append)
    with Cons Suc show ?thesis by (simp add: add.assoc)
  qed
qed

lemma take_drop_concat_uniform:
  assumes "\<forall>b \<in> set bs. length b = m" and "i < length bs"
  shows "take m (drop (i * m) (concat bs)) = bs ! i"
  using assms
proof (induction bs arbitrary: i)
  case Nil
  then show ?case by simp
next
  case (Cons b bs)
  show ?case
  proof (cases i)
    case 0
    with Cons.prems show ?thesis by simp
  next
    case (Suc i')
    have "drop (m + i' * m) (b @ concat bs) = drop (i' * m) (concat bs)"
      using Cons.prems(1) by simp
    with Cons Suc show ?thesis by simp
  qed
qed

lemma renderSlice_row:
  assumes "0 \<le> y" "y < size_of s" "0 \<le> z" "z < size_of s"
  shows "renderSlice s ! (2 + nat y * (nat (size_of s) + 2) + 1 + nat z) =
           Row (concat (map (cell s y z) [0..size_of s - 1]))"
proof -
  let ?n = "size_of s"
  let ?layer = "\<lambda>y. Layer y # map (\<lambda>z. Row (concat (map (cell s y z) [0..?n - 1]))) [0..?n - 1] @ [Text []]"
  let ?body = "concat (map ?layer [0..?n - 1])"
  have len: "\<forall>b \<in> set (map ?layer [0..?n - 1]). length b = nat ?n + 2" by simp
  have iy: "nat y < length (map ?layer [0..?n - 1])" using assms by simp
  have jz: "1 + nat z < nat ?n + 2" using assms by simp
  have "?body ! (nat y * (nat ?n + 2) + (1 + nat z)) = map ?layer [0..?n - 1] ! nat y ! (1 + nat z)"
    by (rule concat_nth_uniform [OF len iy jz])
  also have "\<dots> = ?layer y ! (1 + nat z)" using assms by simp
  also have "\<dots> = Row (concat (map (cell s y z) [0..?n - 1]))"
    using assms by (simp add: nth_append)
  finally have b: "?body ! (nat y * (nat ?n + 2) + (1 + nat z)) = Row (concat (map (cell s y z) [0..?n - 1]))" .
  have inb: "nat y * (nat ?n + 2) + (1 + nat z) < length ?body"
  proof -
    have "length ?body = nat ?n * (nat ?n + 2)"
      by (simp add: length_concat comp_def sum_list_triv)
    moreover have "nat y * (nat ?n + 2) + (nat ?n + 2) \<le> nat ?n * (nat ?n + 2)"
    proof -
      have "Suc (nat y) \<le> nat ?n" using assms by simp
      then have "Suc (nat y) * (nat ?n + 2) \<le> nat ?n * (nat ?n + 2)" by (rule mult_le_mono1)
      then show ?thesis by simp
    qed
    ultimately show ?thesis using jz by linarith
  qed
  have "renderSlice s ! (2 + (nat y * (nat ?n + 2) + (1 + nat z))) = ?body ! (nat y * (nat ?n + 2) + (1 + nat z))"
    unfolding renderSlice_def using inb by (simp add: nth_append)
  with b show ?thesis by (simp add: add.assoc)
qed

text \<open>
  Claim C7. For an engine that was constructed and moved in any way, the rendered slice
  shows, for every cell \<open>(x,y,z)\<close> of the grid at the player's W level, the marker of the
  cell's class: in the output, the line of layer \<open>y\<close> and row \<open>z\<close> is a row whose three
  characters for column \<open>x\<close> are the marker of the classification by priority (player,
  then centre even when unvisited, then visited with its recorded trap flag, then
  unknown). The renderer is a function of the engine and returns only the lines printed;
  the engine is not changed by it.
\<close>

theorem renderSlice_classifies:
  assumes "construct n ds = Some (s0, ds')" and "s = play s0 dirs"
    and "0 \<le> x" "x < n" "0 \<le> y" "y < n" "0 \<le> z" "z < n"
  shows "\<exists>row. renderSlice s ! (2 + nat y * (nat n + 2) + 1 + nat z) = Row row \<and>
           take 3 (drop (3 * nat x) row) =
             marker_text (classify s \<lparr>cx = x, cy = y, cz = z, cw = cw (position s)\<rparr>)"
proof -
  have s0: "size_of s0 = n" "exit_of s0 = getCenter n"
    using assms(1) by (auto simp: construct_def split: option.splits)
  then have sz: "size_of s = n" and ex: "exit_of s = getCenter (size_of s)"
    by (simp_all add: assms(2) play_size play_exit)
  let ?row = "concat (map (cell s y z) [0..n - 1])"
  have r: "renderSlice s ! (2 + nat y * (nat n + 2) + 1 + nat z) = Row ?row"
    using renderSlice_row [of y s z] assms sz by simp
  have "take 3 (drop (nat x * 3) ?row) = map (cell s y z) [0..n - 1] ! nat x"
    using assms by (intro take_drop_concat_uniform) (simp_all add: length_cell)
  also have "\<dots> = cell s y z x" using assms by simp
  finally have "take 3 (drop (3 * nat x) ?row) = cell s y z x" by (simp add: mult.commute)
  with r cell_classify [OF ex] show ?thesis by simp
qed

theorem renderSlice_classifies_witness:
  "construct 4 [1, 1, 1, 1] = Some (start_1111, []) \<and>
   (0::int) \<le> 2 \<and> (2::int) < 4 \<and>
   renderSlice (play start_1111 [''wp'', ''xp'']) ! 17 = Row '' ?  ?  E  ? '' \<and>
   map_of (visited (play start_1111 [''wp'', ''xp''])) ''2,2,2,2'' = None \<and>
   classify (play start_1111 [''wp'', ''xp'']) \<lparr>cx = 2, cy = 2, cz = 2, cw = 2\<rparr> = Exit \<and>
   (\<exists>row. renderSlice (play start_1111 [''wp'', ''xp'']) ! 17 = Row row \<and>
          take 3 (drop 6 row) = '' E '')"
proof -
  have c: "construct 4 [1, 1, 1, 1] = Some (start_1111, [])" by code_simp
  have r: "renderSlice (play start_1111 [''wp'', ''xp'']) ! 17 = Row '' ?  ?  E  ? ''"
    by code_simp
  have v: "map_of (visited (play start_1111 [''wp'', ''xp''])) ''2,2,2,2'' = None"
    by code_simp
  have w: "cw (position (play start_1111 [''wp'', ''xp''])) = 2" by code_simp
  have k: "classify (play start_1111 [''wp'', ''xp'']) \<lparr>cx = 2, cy = 2, cz = 2, cw = 2\<rparr> = Exit"
    by code_simp
  from renderSlice_classifies [OF c refl, of 2 2 2 "[''wp'', ''xp'']"]
  show ?thesis using c r v w k by simp
qed

section \<open>Names inherited by the direction table\<close>

text \<open>
  Claim C4 says that a move with an invalid direction token returns an error and leaves
  position, turn and visited memory unchanged. The code does so for a token such as
  \<open>up\<close>, but not for \<open>constructor\<close>, which is none of the eight direction tokens
  either: \<open>deltas[dir]\<close> finds the function inherited from \<open>Object.prototype\<close>, which
  is truthy and has no enumerable property, so the guard does not reject it, the loop
  over its properties shifts no axis, the candidate is the current cell and is inside,
  and the move is committed. In the extended engine the turn counter goes from 0 to 1
  and the current cell is entered in the visited memory; in the minimal engine the
  current cell is added to the visited set.
\<close>

theorem move_inherited_name_mutates:
  "construct 4 [1, 1, 1, 1] = Some (start_1111, []) \<and>
   move start_1111 ''up'' = (Inl ''Invalid direction.'', start_1111) \<and>
   map_of own_deltas ''constructor'' = None \<and>
   move start_1111 ''constructor'' =
     (Inr \<lparr>res_position = \<lparr>cx = 1, cy = 1, cz = 1, cw = 1\<rparr>, res_trap = True,
           res_exit = False, res_turn = 1\<rparr>,
      \<lparr>size_of = 4, turn = 1, exit_of = \<lparr>cx = 2, cy = 2, cz = 2, cw = 2\<rparr>,
       position = \<lparr>cx = 1, cy = 1, cz = 1, cw = 1\<rparr>,
       visited = [(''1,1,1,1'', \<lparr>mem_trap = True, mem_turn = 1\<rparr>)]\<rparr>) \<and>
   construct_min 5 [1, 1, 1, 1] = Some (start_min_1111, []) \<and>
   move_min start_min_1111 ''constructor'' =
     (Inr \<lparr>rmin_position = \<lparr>cx = 1, cy = 1, cz = 1, cw = 1\<rparr>, rmin_trap = False,
           rmin_exit = False\<rparr>,
      \<lparr>size_min = 5, visited_min = [''1,1,1,1''],
       exit_min = \<lparr>cx = 2, cy = 2, cz = 2, cw = 2\<rparr>,
       position_min = \<lparr>cx = 1, cy = 1, cz = 1, cw = 1\<rparr>\<rparr>)"
  by code_simp

text \<open>
  Claim C6 says that every successful move changes exactly one component of the position
  by one. At the argument \<open>toString\<close>, by the same lookup of an inherited name, the move
  succeeds and the new position equals the old one in all four components, in both
  engines.
\<close>

theorem move_inherited_name_no_displacement:
  "map_of own_deltas ''toString'' = None \<and>
   fst (move start_1111 ''toString'') =
     Inr \<lparr>res_position = \<lparr>cx = 1, cy = 1, cz = 1, cw = 1\<rparr>, res_trap = True,
          res_exit = False, res_turn = 1\<rparr> \<and>
   position (snd (move start_1111 ''toString'')) = position start_1111 \<and>
   fst (move_min start_min_1111 ''toString'') =
     Inr \<lparr>rmin_position = \<lparr>cx = 1, cy = 1, cz = 1, cw = 1\<rparr>, rmin_trap = False,
          rmin_exit = False\<rparr> \<and>
   position_min (snd (move_min start_min_1111 ''toString'')) = position_min start_min_1111"
  by code_simp

end
